theory Spec2Isabelle
  imports Main "HOL-Library.Multiset"
begin

section \<open>The prim type info cache of pxr/usd/usd/primTypeInfoCache.h\<close>

subsection \<open>Tokens, descriptors, pointers\<close>

text \<open>
  Modelled from the spec: pxr/base/tf/token.h is not among the sources. A \<open>TfToken\<close> is an
  interned string-like identifier: two tokens are equal exactly when their strings are
  equal, \<open>IsEmpty\<close> holds of the token of the empty string, \<open>size\<close> is the length of the
  string, and appending a token to a \<open>std::string\<close> appends its characters.
\<close>

type_synonym TfToken = string

type_synonym TfTokenVector = "TfToken list"

definition IsEmpty :: "TfToken \<Rightarrow> bool" where
  "IsEmpty t = (t = [])"

text \<open>
  Modelled from the spec: pxr/usd/usd/primTypeInfo.h is not among the sources. A
  \<open>Usd_PrimTypeInfo\<close> is immutable once constructed and holds the base-type identifier
  and the ordered trait-name sequence it was built from.
\<close>

record Usd_PrimTypeInfo =
  primTypeName :: TfToken
  appliedAPISchemas :: TfTokenVector

text \<open>
  Modelled from the spec: \<open>Usd_PrimTypeInfo::GetEmptyPrimType()\<close> is the static accessor
  for the degenerate value, "no base type, no traits".
\<close>

definition EmptyPrimType :: Usd_PrimTypeInfo where
  "EmptyPrimType = \<lparr>primTypeName = [], appliedAPISchemas = []\<rparr>"

text \<open>
  A \<open>const Usd_PrimTypeInfo *\<close> is an address; address 0 is \<open>nullptr\<close>. The static empty
  prim type lives at a fixed address outside the range the allocator hands out.
\<close>

type_synonym ptr = nat

definition nullptr :: ptr where
  "nullptr = 0"

definition GetEmptyPrimType_addr :: ptr where
  "GetEmptyPrimType_addr = 1"

text \<open>
  The only failure the component can meet: the \<open>new\<close> expression of
  \<open>FindOrCreatePrimTypeInfo\<close> throws \<open>std::bad_alloc\<close>. The allocations made inside the
  library calls (the string, the token, the node of the hash map) are taken to succeed.
\<close>

datatype error = BadAlloc

text \<open>
  The state a call can read or change: the two data members of the cache
  (\<open>_primTypeInfoMap\<close>, whose \<open>unique_ptr\<close> values are kept as the addresses they own,
  and \<open>_emptyPrimTypeInfo\<close>), and the part of the free store that holds
  \<open>Usd_PrimTypeInfo\<close> objects: the live objects by address, the next address \<open>new\<close>
  hands out, and the number of objects that can still be allocated before \<open>new\<close> throws.
  \<open>tbb::concurrent_hash_map\<close> is a map with at most one entry for a key; the calls are
  modelled one at a time, each as a whole.
\<close>

record state =
  hashMap :: "TfToken \<rightharpoonup> ptr"
  emptyPrimTypeInfo :: ptr
  objects :: "ptr \<rightharpoonup> Usd_PrimTypeInfo"
  next_addr :: ptr
  avail :: nat

subsection \<open>The key builder\<close>

text \<open>
  \<open>_CreatePrimTypeInfoKey\<close>, lines 78 to 104. The first loop computes the size passed
  to \<open>reserve\<close>; \<open>reserve\<close> changes the capacity of a \<open>std::string\<close> and not its
  contents. The second loop appends a comma and the schema type, for each applied schema
  in order.
\<close>

fun tokenSize_loop :: "nat \<Rightarrow> TfTokenVector \<Rightarrow> nat" where
  "tokenSize_loop tokenSize [] = tokenSize"
| "tokenSize_loop tokenSize (schemaType # rest) =
     tokenSize_loop (tokenSize + length schemaType) rest"

definition reserve :: "string \<Rightarrow> nat \<Rightarrow> string" where
  "reserve fullTypeString tokenSize = fullTypeString"

fun append_loop :: "string \<Rightarrow> TfTokenVector \<Rightarrow> string" where
  "append_loop fullTypeString [] = fullTypeString"
| "append_loop fullTypeString (schemaType # rest) =
     append_loop ((fullTypeString @ '','') @ schemaType) rest"

definition CreatePrimTypeInfoKey :: "TfToken \<Rightarrow> TfTokenVector \<Rightarrow> TfToken" where
  "CreatePrimTypeInfoKey primType appliedSchemaTypes =
     (if appliedSchemaTypes = [] then primType
      else
        let tokenSize = tokenSize_loop (length appliedSchemaTypes + length primType)
              appliedSchemaTypes;
            fullTypeString = reserve [] tokenSize;
            fullTypeString = fullTypeString @ primType
        in append_loop fullTypeString appliedSchemaTypes)"

text \<open>
  The key as the specification words it (section 4.1, \<open>BuildKey\<close>): the base type alone
  when there are no traits, else the base type followed by each trait name in its given
  order, each preceded by a single separator character.
\<close>

definition BuildKey :: "TfToken \<Rightarrow> TfTokenVector \<Rightarrow> TfToken" where
  "BuildKey baseType traits =
     (if traits = [] then baseType
      else baseType @ concat (map (\<lambda>trait. CHR '','' # trait) traits))"

subsection \<open>The hash map wrapper\<close>

text \<open>
  \<open>_ThreadSafeHashMapImpl::Find\<close>, lines 114 to 121: the pointer stored under the key,
  or \<open>nullptr\<close>.
\<close>

definition Find :: "state \<Rightarrow> TfToken \<Rightarrow> ptr" where
  "Find s key = (case hashMap s key of Some p \<Rightarrow> p | None \<Rightarrow> nullptr)"

text \<open>
  Destroying a \<open>unique_ptr\<close> deletes the object it owns, if it owns one.
\<close>

definition delete_ptr :: "state \<Rightarrow> ptr \<Rightarrow> state" where
  "delete_ptr s p =
     (if p = nullptr \<or> objects s p = None then s
      else s\<lparr>objects := (objects s)(p := None), avail := avail s + 1\<rparr>)"

text \<open>
  \<open>_ThreadSafeHashMapImpl::Insert\<close>, lines 126 to 134. \<open>insert(accessor, key)\<close> adds the
  key only when it is absent, and only then is \<open>valuePtr\<close> moved into the map. The
  parameter \<open>valuePtr\<close> is destroyed when the call ends: it deletes its object when
  that object was not moved into the map.
\<close>

definition Insert :: "state \<Rightarrow> TfToken \<Rightarrow> ptr \<Rightarrow> ptr \<times> state" where
  "Insert s key valuePtr =
     (case hashMap s key of
        None \<Rightarrow> (valuePtr, s\<lparr>hashMap := (hashMap s)(key \<mapsto> valuePtr)\<rparr>)
      | Some p \<Rightarrow> (p, delete_ptr s valuePtr))"

subsection \<open>The cache\<close>

text \<open>
  The \<open>new\<close> expression of line 64: a fresh address holding the descriptor built
  from the prim type and the applied schemas, or \<open>std::bad_alloc\<close>.
\<close>

definition new_Usd_PrimTypeInfo ::
  "state \<Rightarrow> TfToken \<Rightarrow> TfTokenVector \<Rightarrow> (error + ptr) \<times> state" where
  "new_Usd_PrimTypeInfo s primType appliedSchemas =
     (if avail s = 0 then (Inl BadAlloc, s)
      else (Inr (next_addr s),
            s\<lparr>objects := (objects s)(next_addr s \<mapsto>
                  \<lparr>primTypeName = primType, appliedAPISchemas = appliedSchemas\<rparr>),
              next_addr := Suc (next_addr s),
              avail := avail s - 1\<rparr>))"

text \<open>
  The constructor, lines 40 and 41, in a process that can still allocate \<open>n\<close>
  descriptors: an empty map, and the address of the static empty prim type.
\<close>

definition Usd_PrimTypeInfoCache :: "nat \<Rightarrow> state" where
  "Usd_PrimTypeInfoCache n =
     \<lparr>hashMap = Map.empty,
      emptyPrimTypeInfo = GetEmptyPrimType_addr,
      objects = [GetEmptyPrimType_addr \<mapsto> EmptyPrimType],
      next_addr = Suc GetEmptyPrimType_addr,
      avail = n\<rparr>"

definition GetEmptyPrimTypeInfo :: "state \<Rightarrow> ptr" where
  "GetEmptyPrimTypeInfo s = emptyPrimTypeInfo s"

text \<open>
  \<open>FindOrCreatePrimTypeInfo\<close>, lines 46 to 67. The result is the returned pointer, or
  the exception thrown, with the state the call leaves behind.
\<close>

definition FindOrCreatePrimTypeInfo ::
  "state \<Rightarrow> TfToken \<Rightarrow> TfTokenVector \<Rightarrow> (error + ptr) \<times> state" where
  "FindOrCreatePrimTypeInfo s primType appliedSchemas =
     (let key = CreatePrimTypeInfoKey primType appliedSchemas in
      if IsEmpty key then (Inr (GetEmptyPrimTypeInfo s), s)
      else
        let primTypeInfo = Find s key in
        if primTypeInfo \<noteq> nullptr then (Inr primTypeInfo, s)
        else
          (case new_Usd_PrimTypeInfo s primType appliedSchemas of
             (Inl e, s1) \<Rightarrow> (Inl e, s1)
           | (Inr newPrimTypeInfo, s1) \<Rightarrow>
               (case Insert s1 key newPrimTypeInfo of
                  (p, s2) \<Rightarrow> (Inr p, s2))))"

text \<open>
  A history of the cache: the calls of \<open>FindOrCreatePrimTypeInfo\<close> made on it, one after
  the other. The other members that change the map are private.
\<close>

fun run :: "state \<Rightarrow> (TfToken \<times> TfTokenVector) list \<Rightarrow> state" where
  "run s [] = s"
| "run s ((primType, appliedSchemas) # calls) =
     run (snd (FindOrCreatePrimTypeInfo s primType appliedSchemas)) calls"

subsection \<open>The invariant of the cache\<close>

text \<open>
  The key a descriptor is filed under, and what every state of a history satisfies: the
  empty prim type is where the constructor found it, every live descriptor but the empty
  one is the map's entry under its own key, and every entry of the map, under a key that
  is not empty, is a live descriptor with that key. \<open>created\<close> is the state after a call
  that found no entry and inserted a new descriptor.
\<close>

definition key_of :: "Usd_PrimTypeInfo \<Rightarrow> TfToken" where
  "key_of d = CreatePrimTypeInfoKey (primTypeName d) (appliedAPISchemas d)"

definition cache_inv :: "state \<Rightarrow> bool" where
  "cache_inv s \<longleftrightarrow>
     emptyPrimTypeInfo s = GetEmptyPrimType_addr
     \<and> objects s GetEmptyPrimType_addr = Some EmptyPrimType
     \<and> objects s nullptr = None
     \<and> GetEmptyPrimType_addr < next_addr s
     \<and> (\<forall>p d. objects s p = Some d \<longrightarrow>
            p < next_addr s \<and> (p = GetEmptyPrimType_addr \<or> hashMap s (key_of d) = Some p))
     \<and> (\<forall>k p. hashMap s k = Some p \<longrightarrow>
            k \<noteq> [] \<and> (\<exists>d. objects s p = Some d \<and> key_of d = k))"

definition created :: "state \<Rightarrow> TfToken \<Rightarrow> TfTokenVector \<Rightarrow> state" where
  "created s primType appliedSchemas =
     s\<lparr>objects := (objects s)(next_addr s \<mapsto>
           \<lparr>primTypeName = primType, appliedAPISchemas = appliedSchemas\<rparr>),
       next_addr := Suc (next_addr s),
       avail := avail s - 1,
       hashMap := (hashMap s)(CreatePrimTypeInfoKey primType appliedSchemas \<mapsto> next_addr s)\<rparr>"

subsection \<open>Well-formed identifiers\<close>

text \<open>
  The specification assumes well-formed identifiers: the separator cannot appear inside
  a valid identifier. The code does not check it. A call is well formed when its prim type
  and its applied schemas are; \<open>objects_well_formed\<close> says that every live descriptor was
  built from well-formed identifiers.
\<close>

definition well_formed :: "TfToken \<Rightarrow> bool" where
  "well_formed t = (CHR '','' \<notin> set t)"

fun well_formed_call :: "TfToken \<times> TfTokenVector \<Rightarrow> bool" where
  "well_formed_call (primType, appliedSchemas) =
     (well_formed primType \<and> list_all well_formed appliedSchemas)"

definition objects_well_formed :: "state \<Rightarrow> bool" where
  "objects_well_formed s \<longleftrightarrow>
     (\<forall>p d. objects s p = Some d \<longrightarrow>
        well_formed (primTypeName d) \<and> list_all well_formed (appliedAPISchemas d))"

text \<open>The part of a key that follows the prim type.\<close>

abbreviation (input) commas :: "TfTokenVector \<Rightarrow> string" where
  "commas ts \<equiv> concat (map (\<lambda>trait. CHR '','' # trait) ts)"

section \<open>The key builder\<close>

lemma append_loop_concat:
  "append_loop acc ts = acc @ concat (map (\<lambda>trait. CHR '','' # trait) ts)"
  by (induction ts arbitrary: acc) simp_all

lemma CreatePrimTypeInfoKey_concat:
  "CreatePrimTypeInfoKey primType ts = primType @ concat (map (\<lambda>trait. CHR '','' # trait) ts)"
  by (simp add: CreatePrimTypeInfoKey_def reserve_def append_loop_concat)

lemma tokenSize_loop_sum:
  "tokenSize_loop n ts = n + sum_list (map length ts)"
  by (induction ts arbitrary: n) simp_all

lemma append_loop_length:
  "length (append_loop acc ts) = length acc + length ts + sum_list (map length ts)"
  by (induction ts arbitrary: acc) simp_all

text \<open>The size reserved is the length of the key that is built.\<close>

lemma tokenSize_is_key_length:
  "ts \<noteq> [] \<Longrightarrow>
   tokenSize_loop (length ts + length primType) ts = length (CreatePrimTypeInfoKey primType ts)"
  by (simp add: tokenSize_loop_sum CreatePrimTypeInfoKey_def reserve_def append_loop_length)

text \<open>
  C3. With no applied schemas the key is the prim type itself. With applied schemas the
  key is the prim type followed by each schema name in the given order, each preceded by
  exactly one comma; so the source's key builder computes the specification's
  \<open>BuildKey\<close>, and with an empty prim type and at least one schema the key begins with
  the comma.
\<close>

theorem CreatePrimTypeInfoKey_reference:
  "CreatePrimTypeInfoKey primType [] = primType
   \<and> CreatePrimTypeInfoKey primType (t # ts)
       = primType @ concat (map (\<lambda>trait. CHR '','' # trait) (t # ts))
   \<and> CreatePrimTypeInfoKey primType traits = BuildKey primType traits
   \<and> take 1 (CreatePrimTypeInfoKey [] (t # ts)) = '','' "
  by (simp add: CreatePrimTypeInfoKey_concat BuildKey_def)

theorem CreatePrimTypeInfoKey_reference_witness:
  "CreatePrimTypeInfoKey ''Mesh'' [] = ''Mesh''
   \<and> CreatePrimTypeInfoKey ''Mesh'' [''A'', ''B''] = ''Mesh,A,B''
   \<and> BuildKey ''Mesh'' [''A'', ''B''] = ''Mesh,A,B''
   \<and> take 1 (CreatePrimTypeInfoKey [] [''A'', ''B'']) = '',''"
proof -
  note k = CreatePrimTypeInfoKey_reference [of "''Mesh''" "''A''" "[''B'']" "[''A'', ''B'']"]
  have b: "BuildKey ''Mesh'' [''A'', ''B''] = ''Mesh,A,B''"
    by (simp add: BuildKey_def)
  from k have "CreatePrimTypeInfoKey ''Mesh'' [''A'', ''B''] = ''Mesh,A,B''"
    by simp
  with k b show ?thesis
    by simp
qed

section \<open>The invariant holds along every history\<close>

lemma key_of_EmptyPrimType: "key_of EmptyPrimType = []"
  by (simp add: key_of_def EmptyPrimType_def CreatePrimTypeInfoKey_def)

lemma cache_inv_map_value:
  assumes "cache_inv s" "hashMap s k = Some p"
  shows "p \<noteq> nullptr" "p \<noteq> GetEmptyPrimType_addr" "p < next_addr s" "k \<noteq> []"
    "\<exists>d. objects s p = Some d \<and> key_of d = k"
proof -
  from assms obtain d where d: "objects s p = Some d" "key_of d = k" and k: "k \<noteq> []"
    unfolding cache_inv_def by blast
  show "k \<noteq> []" by (rule k)
  show "\<exists>d. objects s p = Some d \<and> key_of d = k" using d by blast
  from assms(1) d(1) show "p < next_addr s"
    unfolding cache_inv_def by blast
  from assms(1) d(1) show "p \<noteq> nullptr"
    unfolding cache_inv_def by auto
  from assms(1) d k show "p \<noteq> GetEmptyPrimType_addr"
    unfolding cache_inv_def using key_of_EmptyPrimType by auto
qed

lemma FindOrCreate_empty:
  "CreatePrimTypeInfoKey primType appliedSchemas = [] \<Longrightarrow>
   FindOrCreatePrimTypeInfo s primType appliedSchemas = (Inr (emptyPrimTypeInfo s), s)"
  by (simp add: FindOrCreatePrimTypeInfo_def IsEmpty_def GetEmptyPrimTypeInfo_def)

lemma FindOrCreate_hit:
  "CreatePrimTypeInfoKey primType appliedSchemas \<noteq> [] \<Longrightarrow>
   hashMap s (CreatePrimTypeInfoKey primType appliedSchemas) = Some p \<Longrightarrow> p \<noteq> nullptr \<Longrightarrow>
   FindOrCreatePrimTypeInfo s primType appliedSchemas = (Inr p, s)"
  by (simp add: FindOrCreatePrimTypeInfo_def IsEmpty_def Find_def)

lemma FindOrCreate_bad_alloc:
  "CreatePrimTypeInfoKey primType appliedSchemas \<noteq> [] \<Longrightarrow>
   hashMap s (CreatePrimTypeInfoKey primType appliedSchemas) = None \<Longrightarrow> avail s = 0 \<Longrightarrow>
   FindOrCreatePrimTypeInfo s primType appliedSchemas = (Inl BadAlloc, s)"
  by (simp add: FindOrCreatePrimTypeInfo_def IsEmpty_def Find_def new_Usd_PrimTypeInfo_def)

lemma FindOrCreate_miss:
  "CreatePrimTypeInfoKey primType appliedSchemas \<noteq> [] \<Longrightarrow>
   hashMap s (CreatePrimTypeInfoKey primType appliedSchemas) = None \<Longrightarrow> 0 < avail s \<Longrightarrow>
   FindOrCreatePrimTypeInfo s primType appliedSchemas
     = (Inr (next_addr s), created s primType appliedSchemas)"
  by (simp add: FindOrCreatePrimTypeInfo_def IsEmpty_def Find_def new_Usd_PrimTypeInfo_def
      Insert_def created_def)

lemma cache_inv_object:
  assumes "cache_inv s" "objects s p = Some d"
  shows "p < next_addr s" "p = GetEmptyPrimType_addr \<or> hashMap s (key_of d) = Some p"
  using assms unfolding cache_inv_def by blast+

lemma cache_inv_fresh: "cache_inv s \<Longrightarrow> objects s (next_addr s) = None"
  using cache_inv_object(1) [of s "next_addr s"] by (cases "objects s (next_addr s)") auto

lemma created_simps:
  "hashMap (created s primType appliedSchemas)
     = (hashMap s)(CreatePrimTypeInfoKey primType appliedSchemas \<mapsto> next_addr s)"
  "objects (created s primType appliedSchemas)
     = (objects s)(next_addr s \<mapsto> \<lparr>primTypeName = primType, appliedAPISchemas = appliedSchemas\<rparr>)"
  "next_addr (created s primType appliedSchemas) = Suc (next_addr s)"
  "emptyPrimTypeInfo (created s primType appliedSchemas) = emptyPrimTypeInfo s"
  "avail (created s primType appliedSchemas) = avail s - 1"
  by (simp_all add: created_def)

lemma cache_inv_created:
  assumes inv: "cache_inv s" and ne: "CreatePrimTypeInfoKey primType appliedSchemas \<noteq> []"
    and miss: "hashMap s (CreatePrimTypeInfoKey primType appliedSchemas) = None"
  shows "cache_inv (created s primType appliedSchemas)"
proof -
  let ?k = "CreatePrimTypeInfoKey primType appliedSchemas"
  let ?d = "\<lparr>primTypeName = primType, appliedAPISchemas = appliedSchemas\<rparr>"
  let ?t = "created s primType appliedSchemas"
  have kd: "key_of ?d = ?k"
    by (simp add: key_of_def)
  from inv have base: "emptyPrimTypeInfo s = GetEmptyPrimType_addr"
    "objects s GetEmptyPrimType_addr = Some EmptyPrimType" "objects s nullptr = None"
    "GetEmptyPrimType_addr < next_addr s"
    unfolding cache_inv_def by blast+
  have fresh: "objects s (next_addr s) = None"
    by (rule cache_inv_fresh [OF inv])
  have 1: "emptyPrimTypeInfo ?t = GetEmptyPrimType_addr"
    using base by (simp add: created_simps)
  have 2: "objects ?t GetEmptyPrimType_addr = Some EmptyPrimType"
    using base by (auto simp: created_simps)
  have 3: "objects ?t nullptr = None"
    using base by (auto simp: created_simps nullptr_def GetEmptyPrimType_addr_def)
  have 4: "GetEmptyPrimType_addr < next_addr ?t"
    using base by (simp add: created_simps)
  have 5: "p < next_addr ?t \<and> (p = GetEmptyPrimType_addr \<or> hashMap ?t (key_of d) = Some p)"
    if o: "objects ?t p = Some d" for p d
  proof (cases "p = next_addr s")
    case True
    with o have "d = ?d" by (simp add: created_simps)
    with True kd show ?thesis by (simp add: created_simps)
  next
    case False
    with o have old: "objects s p = Some d" by (simp add: created_simps)
    note c = cache_inv_object [OF inv old]
    show ?thesis
    proof (cases "p = GetEmptyPrimType_addr")
      case True
      with c show ?thesis by (simp add: created_simps)
    next
      case False
      with c have h: "hashMap s (key_of d) = Some p" by simp
      with miss have "key_of d \<noteq> ?k" by auto
      with h c show ?thesis by (simp add: created_simps)
    qed
  qed
  have 6: "k \<noteq> [] \<and> (\<exists>d. objects ?t p = Some d \<and> key_of d = k)"
    if h: "hashMap ?t k = Some p" for k p
  proof (cases "k = ?k")
    case True
    with h have "p = next_addr s" by (simp add: created_simps)
    with True ne kd show ?thesis by (simp add: created_simps)
  next
    case False
    with h have old: "hashMap s k = Some p" by (simp add: created_simps)
    note c = cache_inv_map_value [OF inv old]
    from c(3) have "p \<noteq> next_addr s" by simp
    with c show ?thesis by (simp add: created_simps)
  qed
  from 1 2 3 4 5 6 show ?thesis
    unfolding cache_inv_def by blast
qed

lemma cache_inv_init: "cache_inv (Usd_PrimTypeInfoCache n)"
  by (simp add: cache_inv_def Usd_PrimTypeInfoCache_def nullptr_def GetEmptyPrimType_addr_def)

text \<open>The four ways a call can go, on a state that satisfies the invariant.\<close>

lemma FindOrCreate_cases:
  assumes inv: "cache_inv s"
  obtains
    (Empty) "CreatePrimTypeInfoKey primType appliedSchemas = []"
      "FindOrCreatePrimTypeInfo s primType appliedSchemas = (Inr (emptyPrimTypeInfo s), s)"
  | (Hit) p where "CreatePrimTypeInfoKey primType appliedSchemas \<noteq> []"
      "hashMap s (CreatePrimTypeInfoKey primType appliedSchemas) = Some p"
      "FindOrCreatePrimTypeInfo s primType appliedSchemas = (Inr p, s)"
  | (Bad_Alloc) "CreatePrimTypeInfoKey primType appliedSchemas \<noteq> []"
      "hashMap s (CreatePrimTypeInfoKey primType appliedSchemas) = None" "avail s = 0"
      "FindOrCreatePrimTypeInfo s primType appliedSchemas = (Inl BadAlloc, s)"
  | (Miss) "CreatePrimTypeInfoKey primType appliedSchemas \<noteq> []"
      "hashMap s (CreatePrimTypeInfoKey primType appliedSchemas) = None" "0 < avail s"
      "FindOrCreatePrimTypeInfo s primType appliedSchemas
         = (Inr (next_addr s), created s primType appliedSchemas)"
proof (cases "CreatePrimTypeInfoKey primType appliedSchemas = []")
  case True
  then show ?thesis using Empty FindOrCreate_empty by blast
next
  case ne: False
  show ?thesis
  proof (cases "hashMap s (CreatePrimTypeInfoKey primType appliedSchemas)")
    case None
    then show ?thesis
      using ne Bad_Alloc Miss FindOrCreate_bad_alloc FindOrCreate_miss by (cases "avail s = 0") auto
  next
    case (Some p)
    with inv have "p \<noteq> nullptr" by (rule cache_inv_map_value(1))
    with ne Some show ?thesis using Hit FindOrCreate_hit by blast
  qed
qed

lemma cache_inv_FindOrCreate:
  assumes "cache_inv s"
  shows "cache_inv (snd (FindOrCreatePrimTypeInfo s primType appliedSchemas))"
  using assms
  by (cases rule: FindOrCreate_cases [OF assms, of primType appliedSchemas])
    (simp_all add: cache_inv_created)

lemma cache_inv_run: "cache_inv s \<Longrightarrow> cache_inv (run s calls)"
  by (induction s calls rule: run.induct) (simp_all add: cache_inv_FindOrCreate)

lemma emptyPrimTypeInfo_run:
  "emptyPrimTypeInfo (run (Usd_PrimTypeInfoCache n) calls) = GetEmptyPrimType_addr"
  using cache_inv_run [OF cache_inv_init, of n calls] by (simp add: cache_inv_def)

lemma hashMap_FindOrCreate_mono:
  assumes "cache_inv s" "hashMap s k = Some p"
  shows "hashMap (snd (FindOrCreatePrimTypeInfo s primType appliedSchemas)) k = Some p"
  using assms
  by (cases rule: FindOrCreate_cases [OF assms(1), of primType appliedSchemas])
    (auto simp: created_simps)

lemma objects_FindOrCreate_mono:
  assumes "cache_inv s" "objects s p = Some d"
  shows "objects (snd (FindOrCreatePrimTypeInfo s primType appliedSchemas)) p = Some d"
  using assms cache_inv_fresh [OF assms(1)]
  by (cases rule: FindOrCreate_cases [OF assms(1), of primType appliedSchemas])
    (auto simp: created_simps)

lemma hashMap_run_mono:
  "cache_inv s \<Longrightarrow> hashMap s k = Some p \<Longrightarrow> hashMap (run s calls) k = Some p"
  by (induction s calls rule: run.induct)
    (simp_all add: cache_inv_FindOrCreate hashMap_FindOrCreate_mono)

lemma objects_run_mono:
  "cache_inv s \<Longrightarrow> objects s p = Some d \<Longrightarrow> objects (run s calls) p = Some d"
  by (induction s calls rule: run.induct)
    (simp_all add: cache_inv_FindOrCreate objects_FindOrCreate_mono)

lemma FindOrCreate_registers:
  assumes "cache_inv s"
    "FindOrCreatePrimTypeInfo s primType appliedSchemas = (Inr p, s1)"
    "CreatePrimTypeInfoKey primType appliedSchemas \<noteq> []"
  shows "hashMap s1 (CreatePrimTypeInfoKey primType appliedSchemas) = Some p"
  using assms
  by (cases rule: FindOrCreate_cases [OF assms(1), of primType appliedSchemas])
    (auto simp: created_simps)

lemma cache_inv_empty_object:
  assumes inv: "cache_inv s" and b: "objects s b = Some db" and k: "key_of db = []"
  shows "b = GetEmptyPrimType_addr"
proof (rule ccontr)
  assume "b \<noteq> GetEmptyPrimType_addr"
  with cache_inv_object(2) [OF inv b] k have "hashMap s [] = Some b"
    by simp
  from cache_inv_map_value(4) [OF inv this] show False
    by simp
qed

lemma cache_inv_unique:
  assumes inv: "cache_inv s" and a: "objects s a = Some da" and b: "objects s b = Some db"
    and k: "key_of da = key_of db"
  shows "a = b"
proof (cases "key_of da = []")
  case True
  with k cache_inv_empty_object [OF inv a] cache_inv_empty_object [OF inv b] show ?thesis
    by simp
next
  case False
  from inv have "objects s GetEmptyPrimType_addr = Some EmptyPrimType"
    unfolding cache_inv_def by blast
  with a b k False key_of_EmptyPrimType
  have "a \<noteq> GetEmptyPrimType_addr" "b \<noteq> GetEmptyPrimType_addr"
    by auto
  with cache_inv_object(2) [OF inv a] cache_inv_object(2) [OF inv b] k show ?thesis
    by simp
qed

section \<open>Interning\<close>

lemmas cache_defs =
  FindOrCreatePrimTypeInfo_def CreatePrimTypeInfoKey_def IsEmpty_def Find_def Insert_def
  new_Usd_PrimTypeInfo_def delete_ptr_def GetEmptyPrimTypeInfo_def Usd_PrimTypeInfoCache_def
  GetEmptyPrimType_addr_def nullptr_def EmptyPrimType_def reserve_def Let_def

text \<open>
  C1. On a cache with any history, once a call has returned a descriptor for a prim type
  and a list of applied schemas, a call with the same arguments after any further calls
  returns the same address and leaves the state as it was (so it constructs nothing and
  removes nothing); the entry stays in the map under its key, the descriptor stays as it
  was built, and no two live descriptors have the same key.
\<close>

theorem interning_idempotent:
  assumes reach: "s = run (Usd_PrimTypeInfoCache n) calls"
    and first: "FindOrCreatePrimTypeInfo s primType appliedSchemas = (Inr p, s1)"
    and later: "s2 = run s1 later"
  shows "FindOrCreatePrimTypeInfo s2 primType appliedSchemas = (Inr p, s2)
    \<and> (CreatePrimTypeInfoKey primType appliedSchemas \<noteq> [] \<longrightarrow>
          hashMap s1 (CreatePrimTypeInfoKey primType appliedSchemas) = Some p
          \<and> hashMap s2 (CreatePrimTypeInfoKey primType appliedSchemas) = Some p)
    \<and> objects s1 p \<noteq> None \<and> objects s2 p = objects s1 p
    \<and> (\<forall>a b da db. objects s2 a = Some da \<and> objects s2 b = Some db
          \<and> CreatePrimTypeInfoKey (primTypeName da) (appliedAPISchemas da)
            = CreatePrimTypeInfoKey (primTypeName db) (appliedAPISchemas db) \<longrightarrow> a = b)"
proof -
  let ?k = "CreatePrimTypeInfoKey primType appliedSchemas"
  from reach have inv: "cache_inv s"
    by (simp add: cache_inv_run cache_inv_init)
  from first have s1: "s1 = snd (FindOrCreatePrimTypeInfo s primType appliedSchemas)"
    by simp
  with inv have inv1: "cache_inv s1"
    by (simp add: cache_inv_FindOrCreate)
  with later have inv2: "cache_inv s2"
    by (simp add: cache_inv_run)
  from inv inv2 have e: "emptyPrimTypeInfo s2 = emptyPrimTypeInfo s"
    by (simp add: cache_inv_def)
  have again: "FindOrCreatePrimTypeInfo s2 primType appliedSchemas = (Inr p, s2)"
    and kept: "?k \<noteq> [] \<longrightarrow> hashMap s1 ?k = Some p \<and> hashMap s2 ?k = Some p"
    and live: "objects s1 p \<noteq> None"
  proof -
    show "FindOrCreatePrimTypeInfo s2 primType appliedSchemas = (Inr p, s2)"
    proof (cases "?k = []")
      case True
      with first e show ?thesis
        by (auto simp: FindOrCreate_empty)
    next
      case False
      with inv first have "hashMap s1 ?k = Some p"
        by (rule FindOrCreate_registers)
      with inv1 later have h: "hashMap s2 ?k = Some p"
        by (simp add: hashMap_run_mono)
      from cache_inv_map_value(1) [OF inv2 h] False h show ?thesis
        by (simp add: FindOrCreate_hit)
    qed
    show "?k \<noteq> [] \<longrightarrow> hashMap s1 ?k = Some p \<and> hashMap s2 ?k = Some p"
      using inv first inv1 later by (simp add: FindOrCreate_registers hashMap_run_mono)
    show "objects s1 p \<noteq> None"
    proof (cases "?k = []")
      case True
      with first inv show ?thesis
        by (auto simp: FindOrCreate_empty cache_inv_def)
    next
      case False
      with inv first have "hashMap s1 ?k = Some p"
        by (rule FindOrCreate_registers)
      from cache_inv_map_value(5) [OF inv1 this] show ?thesis
        by auto
    qed
  qed
  from live obtain d where "objects s1 p = Some d"
    by auto
  with inv1 later have same: "objects s2 p = objects s1 p"
    by (simp add: objects_run_mono)
  have unique: "\<forall>a b da db. objects s2 a = Some da \<and> objects s2 b = Some db
          \<and> CreatePrimTypeInfoKey (primTypeName da) (appliedAPISchemas da)
            = CreatePrimTypeInfoKey (primTypeName db) (appliedAPISchemas db) \<longrightarrow> a = b"
    using cache_inv_unique [OF inv2] unfolding key_of_def by blast
  from again kept live same unique show ?thesis
    by blast
qed

theorem interning_idempotent_witness:
  "fst (FindOrCreatePrimTypeInfo (run (Usd_PrimTypeInfoCache 3) [(''Mesh'', [''A''])])
          ''Mesh'' [''A'', ''B'']) = Inr 3
   \<and> FindOrCreatePrimTypeInfo
        (run (snd (FindOrCreatePrimTypeInfo (run (Usd_PrimTypeInfoCache 3) [(''Mesh'', [''A''])])
                ''Mesh'' [''A'', ''B''])) [(''Cube'', [])])
        ''Mesh'' [''A'', ''B'']
      = (Inr 3,
         run (snd (FindOrCreatePrimTypeInfo (run (Usd_PrimTypeInfoCache 3) [(''Mesh'', [''A''])])
                ''Mesh'' [''A'', ''B''])) [(''Cube'', [])])"
proof -
  let ?s = "run (Usd_PrimTypeInfoCache 3) [(''Mesh'', [''A''])]"
  let ?s1 = "snd (FindOrCreatePrimTypeInfo ?s ''Mesh'' [''A'', ''B''])"
  have r: "fst (FindOrCreatePrimTypeInfo ?s ''Mesh'' [''A'', ''B'']) = Inr 3"
    by (simp add: cache_defs)
  then have first: "FindOrCreatePrimTypeInfo ?s ''Mesh'' [''A'', ''B''] = (Inr 3, ?s1)"
    by (simp add: prod_eq_iff)
  from interning_idempotent [OF refl first refl, of "[(''Cube'', [])]"] r show ?thesis
    by blast
qed

section \<open>Totality, the empty key, and Insert\<close>

text \<open>
  C2. On a cache with any history, a call of \<open>FindOrCreatePrimTypeInfo\<close> either returns a
  pointer that is not null and addresses a live descriptor, or throws \<open>std::bad_alloc\<close>.
  The pointer is the empty prim type info, with the state unchanged, when the key is
  empty; the entry that \<open>Find\<close> returns, with the state unchanged, when the key is in the
  map; else the pointer that \<open>Insert\<close> returns for the descriptor just constructed, which
  is then the entry under the key. \<open>std::bad_alloc\<close> is thrown only by the \<open>new\<close>
  expression, when no descriptor can be allocated, and leaves the state unchanged.
\<close>

theorem FindOrCreate_total:
  assumes reach: "s = run (Usd_PrimTypeInfoCache n) calls"
    and key: "key = CreatePrimTypeInfoKey primType appliedSchemas"
    and call: "FindOrCreatePrimTypeInfo s primType appliedSchemas = (r, s')"
  shows "(\<exists>p. r = Inr p \<and> p \<noteq> nullptr \<and> objects s' p \<noteq> None
            \<and> (key = [] \<and> p = GetEmptyPrimTypeInfo s \<and> s' = s
               \<or> key \<noteq> [] \<and> p = Find s key \<and> s' = s
               \<or> key \<noteq> [] \<and> Find s key = nullptr \<and> 0 < avail s
                  \<and> (p, s') = Insert (snd (new_Usd_PrimTypeInfo s primType appliedSchemas))
                                key (next_addr s)
                  \<and> hashMap s' key = Some p))
       \<or> (r = Inl BadAlloc \<and> avail s = 0 \<and> key \<noteq> [] \<and> Find s key = nullptr \<and> s' = s)"
proof -
  from reach have inv: "cache_inv s"
    by (simp add: cache_inv_run cache_inv_init)
  then have e: "objects s (emptyPrimTypeInfo s) = Some EmptyPrimType"
    "emptyPrimTypeInfo s \<noteq> nullptr"
    by (auto simp: cache_inv_def)
  from inv show ?thesis
  proof (cases rule: FindOrCreate_cases
      [where primType = primType and appliedSchemas = appliedSchemas])
    case Empty
    with call key e show ?thesis
      by (auto simp: GetEmptyPrimTypeInfo_def)
  next
    case (Hit p)
    from cache_inv_map_value [OF inv Hit(2)] Hit call key show ?thesis
      by (auto simp: Find_def)
  next
    case Bad_Alloc
    with call key show ?thesis
      by (auto simp: Find_def)
  next
    case Miss
    from inv have "next_addr s \<noteq> nullptr"
      by (auto simp: cache_inv_def nullptr_def)
    with Miss call key show ?thesis
      by (auto simp: Find_def created_simps new_Usd_PrimTypeInfo_def Insert_def created_def
          nullptr_def)
  qed
qed

theorem FindOrCreate_total_witness:
  "FindOrCreatePrimTypeInfo (run (Usd_PrimTypeInfoCache 1) []) ''Mesh'' [''A'']
     = (Inr 2, snd (FindOrCreatePrimTypeInfo (run (Usd_PrimTypeInfoCache 1) []) ''Mesh'' [''A'']))
   \<and> 2 \<noteq> nullptr
   \<and> objects (snd (FindOrCreatePrimTypeInfo (run (Usd_PrimTypeInfoCache 1) []) ''Mesh'' [''A'']))
        2 \<noteq> None
   \<and> FindOrCreatePrimTypeInfo (run (Usd_PrimTypeInfoCache 1) [(''Mesh'', [''A''])]) ''Cube'' []
     = (Inl BadAlloc, run (Usd_PrimTypeInfoCache 1) [(''Mesh'', [''A''])])"
proof -
  let ?s = "run (Usd_PrimTypeInfoCache 1) []"
  let ?t = "snd (FindOrCreatePrimTypeInfo ?s ''Mesh'' [''A''])"
  have "fst (FindOrCreatePrimTypeInfo ?s ''Mesh'' [''A'']) = Inr 2"
    by (simp add: cache_defs)
  then have call: "FindOrCreatePrimTypeInfo ?s ''Mesh'' [''A''] = (Inr 2, ?t)"
    by (simp add: prod_eq_iff)
  from FindOrCreate_total [OF refl refl call] have ok: "2 \<noteq> nullptr \<and> objects ?t 2 \<noteq> None"
    by auto
  let ?u = "run (Usd_PrimTypeInfoCache 1) [(''Mesh'', [''A''])]"
  have "fst (FindOrCreatePrimTypeInfo ?u ''Cube'' []) = Inl BadAlloc"
    by (simp add: cache_defs)
  then have thrown: "FindOrCreatePrimTypeInfo ?u ''Cube'' []
      = (Inl BadAlloc, snd (FindOrCreatePrimTypeInfo ?u ''Cube'' []))"
    by (simp add: prod_eq_iff)
  from FindOrCreate_total [OF refl refl thrown]
  have "snd (FindOrCreatePrimTypeInfo ?u ''Cube'' []) = ?u"
    by auto
  with thrown call ok show ?thesis
    by simp
qed

text \<open>
  C4. In any state, \<open>FindOrCreatePrimTypeInfo\<close> with an empty prim type and no applied
  schemas returns what \<open>GetEmptyPrimTypeInfo\<close> returns and leaves the state, the map
  included, as it was. On a cache with any history, \<open>GetEmptyPrimTypeInfo\<close> is the address
  the constructor stored, the empty prim type is live there, the map has no entry under
  the empty key, no entry of the map is the empty prim type info, and \<open>Find\<close> never
  returns it.
\<close>

theorem empty_key_short_circuit:
  "FindOrCreatePrimTypeInfo t [] [] = (Inr (GetEmptyPrimTypeInfo t), t)
   \<and> GetEmptyPrimTypeInfo (run (Usd_PrimTypeInfoCache n) calls)
       = GetEmptyPrimTypeInfo (Usd_PrimTypeInfoCache n)
   \<and> objects (run (Usd_PrimTypeInfoCache n) calls)
        (GetEmptyPrimTypeInfo (run (Usd_PrimTypeInfoCache n) calls)) = Some EmptyPrimType
   \<and> hashMap (run (Usd_PrimTypeInfoCache n) calls) []  = None
   \<and> hashMap (run (Usd_PrimTypeInfoCache n) calls) k
       \<noteq> Some (GetEmptyPrimTypeInfo (run (Usd_PrimTypeInfoCache n) calls))
   \<and> Find (run (Usd_PrimTypeInfoCache n) calls) k
       \<noteq> GetEmptyPrimTypeInfo (run (Usd_PrimTypeInfoCache n) calls)"
proof -
  let ?s = "run (Usd_PrimTypeInfoCache n) calls"
  have inv: "cache_inv ?s"
    by (simp add: cache_inv_run cache_inv_init)
  have 1: "FindOrCreatePrimTypeInfo t [] [] = (Inr (GetEmptyPrimTypeInfo t), t)"
    by (simp add: FindOrCreate_empty CreatePrimTypeInfoKey_def GetEmptyPrimTypeInfo_def)
  have 2: "GetEmptyPrimTypeInfo ?s = GetEmptyPrimTypeInfo (Usd_PrimTypeInfoCache n)"
    using inv by (simp add: GetEmptyPrimTypeInfo_def cache_inv_def Usd_PrimTypeInfoCache_def)
  have 3: "objects ?s (GetEmptyPrimTypeInfo ?s) = Some EmptyPrimType"
    using inv by (simp add: GetEmptyPrimTypeInfo_def cache_inv_def)
  have 4: "hashMap ?s [] = None"
    using cache_inv_map_value(4) [OF inv, of "[]"] by (cases "hashMap ?s []") auto
  have 5: "hashMap ?s k \<noteq> Some (GetEmptyPrimTypeInfo ?s)"
    using cache_inv_map_value(2) [OF inv, of k] inv
    by (auto simp: GetEmptyPrimTypeInfo_def cache_inv_def)
  have 6: "Find ?s k \<noteq> GetEmptyPrimTypeInfo ?s"
    using 5 inv
    by (auto simp: Find_def GetEmptyPrimTypeInfo_def cache_inv_def nullptr_def
        GetEmptyPrimType_addr_def split: option.splits)
  from 1 2 3 4 5 6 show ?thesis
    by blast
qed

theorem empty_key_short_circuit_witness:
  "FindOrCreatePrimTypeInfo (run (Usd_PrimTypeInfoCache 2) [(''Mesh'', [])]) [] []
     = (Inr 1, run (Usd_PrimTypeInfoCache 2) [(''Mesh'', [])])
   \<and> GetEmptyPrimTypeInfo (run (Usd_PrimTypeInfoCache 2) [(''Mesh'', [])]) = 1
   \<and> hashMap (run (Usd_PrimTypeInfoCache 2) [(''Mesh'', [])]) ''Mesh'' = Some 2
   \<and> hashMap (run (Usd_PrimTypeInfoCache 2) [(''Mesh'', [])]) [] = None"
proof -
  let ?s = "run (Usd_PrimTypeInfoCache 2) [(''Mesh'', [])]"
  note t = empty_key_short_circuit [of ?s 2 "[(''Mesh'', [])]" "''Mesh''"]
  have e: "GetEmptyPrimTypeInfo (Usd_PrimTypeInfoCache 2) = 1"
    by (simp add: cache_defs)
  have m: "hashMap ?s ''Mesh'' = Some 2"
    by (simp add: cache_defs)
  from t e m show ?thesis
    by simp
qed

text \<open>
  C6. In any state: when the key is mapped, \<open>Insert\<close> returns the entry that was there,
  leaves the whole map as it was, deletes the offered descriptor (when the offered pointer
  is not null) and leaves every other object as it was; when the key is absent, \<open>Insert\<close>
  returns the offered pointer, which is then the entry under the key, every other key is
  mapped as before, and no object is deleted.
\<close>

theorem Insert_frame:
  "(hashMap s key = Some p \<longrightarrow>
      fst (Insert s key valuePtr) = p
      \<and> hashMap (snd (Insert s key valuePtr)) = hashMap s
      \<and> (valuePtr \<noteq> nullptr \<longrightarrow> objects (snd (Insert s key valuePtr)) valuePtr = None)
      \<and> (\<forall>q. q \<noteq> valuePtr \<longrightarrow> objects (snd (Insert s key valuePtr)) q = objects s q))
   \<and> (hashMap s key = None \<longrightarrow>
      fst (Insert s key valuePtr) = valuePtr
      \<and> hashMap (snd (Insert s key valuePtr)) key = Some valuePtr
      \<and> (\<forall>k. k \<noteq> key \<longrightarrow> hashMap (snd (Insert s key valuePtr)) k = hashMap s k)
      \<and> objects (snd (Insert s key valuePtr)) = objects s)"
  by (simp add: Insert_def delete_ptr_def)

theorem Insert_frame_witness:
  "hashMap (snd (new_Usd_PrimTypeInfo (run (Usd_PrimTypeInfoCache 3) [(''Mesh'', [])]) ''Mesh'' []))
       ''Mesh'' = Some 2
   \<and> fst (Insert (snd (new_Usd_PrimTypeInfo (run (Usd_PrimTypeInfoCache 3) [(''Mesh'', [])])
                      ''Mesh'' [])) ''Mesh'' 3) = 2
   \<and> objects (snd (Insert (snd (new_Usd_PrimTypeInfo (run (Usd_PrimTypeInfoCache 3) [(''Mesh'', [])])
                      ''Mesh'' [])) ''Mesh'' 3)) 3 = None
   \<and> hashMap (Usd_PrimTypeInfoCache 3) ''Mesh'' = None
   \<and> fst (Insert (Usd_PrimTypeInfoCache 3) ''Mesh'' 3) = 3
   \<and> hashMap (snd (Insert (Usd_PrimTypeInfoCache 3) ''Mesh'' 3)) ''Mesh'' = Some 3"
proof -
  let ?s = "snd (new_Usd_PrimTypeInfo (run (Usd_PrimTypeInfoCache 3) [(''Mesh'', [])]) ''Mesh'' [])"
  have present: "hashMap ?s ''Mesh'' = Some 2"
    by (simp add: cache_defs)
  have absent: "hashMap (Usd_PrimTypeInfoCache 3) ''Mesh'' = None"
    by (simp add: cache_defs)
  have "(3::nat) \<noteq> nullptr"
    by (simp add: nullptr_def)
  with present absent Insert_frame [of ?s "''Mesh''" 2 3]
    Insert_frame [of "Usd_PrimTypeInfoCache 3" "''Mesh''" 2 3]
  show ?thesis
    by blast
qed

section \<open>Keys of well-formed identifiers\<close>

lemma commas_cases: "commas ts = [] \<and> ts = [] \<or> (\<exists>r. commas ts = CHR '','' # r)"
  by (cases ts) simp_all

lemma well_formed_prefix:
  assumes "well_formed a" "well_formed b"
    and "x = [] \<or> (\<exists>r. x = CHR '','' # r)" "y = [] \<or> (\<exists>r. y = CHR '','' # r)"
    and "a @ x = b @ y"
  shows "a = b \<and> x = y"
proof -
  have t: "takeWhile (\<lambda>c. c \<noteq> CHR '','') (u @ z) = u"
    if "well_formed u" "z = [] \<or> (\<exists>r. z = CHR '','' # r)" for u z
    using that by (auto simp: well_formed_def takeWhile_tail intro: takeWhile_eq_all_conv [THEN iffD2])
  from t [OF assms(1,3)] t [OF assms(2,4)] assms(5) have "a = b"
    by simp
  with assms(5) show ?thesis
    by simp
qed

lemma commas_inj:
  "list_all well_formed as \<Longrightarrow> list_all well_formed bs \<Longrightarrow> commas as = commas bs \<Longrightarrow> as = bs"
proof (induction as arbitrary: bs)
  case Nil
  then show ?case by (cases bs) simp_all
next
  case (Cons a as)
  from Cons.prems(3) obtain b bs' where bs: "bs = b # bs'"
    by (cases bs) simp_all
  with Cons.prems have e: "a @ commas as = b @ commas bs'"
    and w: "well_formed a" "well_formed b" "list_all well_formed as" "list_all well_formed bs'"
    by simp_all
  from well_formed_prefix [OF w(1,2) _ _ e] commas_cases [of as] commas_cases [of bs']
  have "a = b \<and> commas as = commas bs'"
    by blast
  with Cons.IH [OF w(3,4)] bs show ?case
    by simp
qed

lemma CreatePrimTypeInfoKey_inj_schemas:
  assumes "list_all well_formed as" "list_all well_formed bs"
    and "CreatePrimTypeInfoKey primType as = CreatePrimTypeInfoKey primType bs"
  shows "as = bs"
  using assms by (simp add: CreatePrimTypeInfoKey_concat commas_inj)

lemma CreatePrimTypeInfoKey_inj:
  assumes "well_formed a" "list_all well_formed as" "well_formed b" "list_all well_formed bs"
    and "CreatePrimTypeInfoKey a as = CreatePrimTypeInfoKey b bs"
  shows "a = b \<and> as = bs"
proof -
  from assms(5) have "a @ commas as = b @ commas bs"
    by (simp add: CreatePrimTypeInfoKey_concat)
  from well_formed_prefix [OF assms(1,3) _ _ this] commas_cases [of as] commas_cases [of bs]
  have "a = b \<and> commas as = commas bs"
    by blast
  with assms(2,4) show ?thesis
    by (simp add: commas_inj)
qed

lemma CreatePrimTypeInfoKey_Nil_iff:
  "CreatePrimTypeInfoKey primType appliedSchemas = [] \<longleftrightarrow> primType = [] \<and> appliedSchemas = []"
  by (cases appliedSchemas) (simp_all add: CreatePrimTypeInfoKey_concat)

section \<open>Histories of well-formed calls\<close>

lemma objects_well_formed_init: "objects_well_formed (Usd_PrimTypeInfoCache n)"
  by (simp add: objects_well_formed_def Usd_PrimTypeInfoCache_def EmptyPrimType_def
      well_formed_def)

lemma objects_well_formed_FindOrCreate:
  assumes "cache_inv s" "objects_well_formed s" "well_formed_call (primType, appliedSchemas)"
  shows "objects_well_formed (snd (FindOrCreatePrimTypeInfo s primType appliedSchemas))"
  using assms(1)
proof (cases rule: FindOrCreate_cases
    [where primType = primType and appliedSchemas = appliedSchemas])
  case Miss
  with assms(2,3) show ?thesis
    by (auto simp: objects_well_formed_def created_simps)
qed (use assms(2) in simp_all)

lemma objects_well_formed_run:
  "cache_inv s \<Longrightarrow> objects_well_formed s \<Longrightarrow> list_all well_formed_call calls \<Longrightarrow>
   objects_well_formed (run s calls)"
proof (induction s calls rule: run.induct)
  case (1 s)
  then show ?case by simp
next
  case (2 s primType appliedSchemas calls)
  then show ?case
    by (simp add: cache_inv_FindOrCreate objects_well_formed_FindOrCreate)
qed

text \<open>On a cache used with well-formed identifiers, a call returns the descriptor of its
  own arguments.\<close>

lemma FindOrCreate_stored:
  assumes inv: "cache_inv s" and wf: "objects_well_formed s"
    and w: "well_formed primType" "list_all well_formed appliedSchemas"
    and call: "FindOrCreatePrimTypeInfo s primType appliedSchemas = (Inr p, s1)"
  shows "objects s1 p = Some \<lparr>primTypeName = primType, appliedAPISchemas = appliedSchemas\<rparr>"
  using inv
proof (cases rule: FindOrCreate_cases
    [where primType = primType and appliedSchemas = appliedSchemas])
  case Empty
  from Empty(1) have "primType = [] \<and> appliedSchemas = []"
    by (simp add: CreatePrimTypeInfoKey_Nil_iff)
  with Empty call inv show ?thesis
    by (auto simp: cache_inv_def EmptyPrimType_def)
next
  case (Hit q)
  from cache_inv_map_value(5) [OF inv Hit(2)] obtain d where d: "objects s q = Some d"
    "key_of d = CreatePrimTypeInfoKey primType appliedSchemas"
    by blast
  from wf d(1) have "well_formed (primTypeName d)" "list_all well_formed (appliedAPISchemas d)"
    by (auto simp: objects_well_formed_def)
  from CreatePrimTypeInfoKey_inj [OF this w] d(2)
  have "d = \<lparr>primTypeName = primType, appliedAPISchemas = appliedSchemas\<rparr>"
    by (simp add: key_of_def)
  with Hit call d(1) show ?thesis
    by auto
next
  case Bad_Alloc
  with call show ?thesis by simp
next
  case Miss
  with call show ?thesis
    by (auto simp: created_simps)
qed

text \<open>Calls with different keys return different pointers.\<close>

lemma FindOrCreate_distinct:
  assumes inv: "cache_inv s"
    and c1: "FindOrCreatePrimTypeInfo s a as = (Inr p1, s1)"
    and c2: "FindOrCreatePrimTypeInfo (run s1 between) b bs = (Inr p2, s2)"
    and ne: "CreatePrimTypeInfoKey a as \<noteq> CreatePrimTypeInfoKey b bs"
  shows "p1 \<noteq> p2"
proof
  assume eq: "p1 = p2"
  let ?ka = "CreatePrimTypeInfoKey a as" and ?kb = "CreatePrimTypeInfoKey b bs"
  from c1 have s1: "s1 = snd (FindOrCreatePrimTypeInfo s a as)"
    by simp
  with inv have inv1: "cache_inv s1"
    by (simp add: cache_inv_FindOrCreate)
  then have invb: "cache_inv (run s1 between)"
    by (rule cache_inv_run)
  from c2 have s2: "s2 = snd (FindOrCreatePrimTypeInfo (run s1 between) b bs)"
    by simp
  with invb have inv2: "cache_inv s2"
    by (simp add: cache_inv_FindOrCreate)
  from inv inv2 invb have e: "emptyPrimTypeInfo s = GetEmptyPrimType_addr"
    "emptyPrimTypeInfo (run s1 between) = GetEmptyPrimType_addr"
    by (simp_all add: cache_inv_def)
  have a: "hashMap s2 ?ka = Some p1" if "?ka \<noteq> []"
  proof -
    from inv c1 that have "hashMap s1 ?ka = Some p1"
      by (rule FindOrCreate_registers)
    with inv1 have "hashMap (run s1 between) ?ka = Some p1"
      by (rule hashMap_run_mono)
    with invb s2 show ?thesis
      by (simp add: hashMap_FindOrCreate_mono)
  qed
  have b: "hashMap s2 ?kb = Some p2" if "?kb \<noteq> []"
    using invb c2 that by (rule FindOrCreate_registers)
  have pa: "p1 = GetEmptyPrimType_addr" if "?ka = []"
    using that c1 e by (simp add: FindOrCreate_empty)
  have pb: "p2 = GetEmptyPrimType_addr" if "?kb = []"
    using that c2 e by (simp add: FindOrCreate_empty)
  show False
  proof (cases "?ka = []")
    case True
    with ne have "?kb \<noteq> []" by auto
    from cache_inv_map_value(2) [OF inv2 b [OF this]] pa [OF True] eq show False
      by simp
  next
    case ka: False
    show False
    proof (cases "?kb = []")
      case True
      from cache_inv_map_value(2) [OF inv2 a [OF ka]] pb [OF True] eq show False
        by simp
    next
      case False
      from cache_inv_map_value(5) [OF inv2 a [OF ka]] cache_inv_map_value(5) [OF inv2 b [OF False]]
        eq ne show False
        by auto
    qed
  qed
qed

section \<open>Order sensitivity\<close>

text \<open>
  C7. For every prim type and every two lists of applied schemas with more than one
  element, holding the same names in a different order, the names having no comma, the
  keys differ. On a cache with any history, a call with the one list and then a call with
  the other return two distinct addresses. When the prim type has no comma either and the
  history is of well-formed calls, as the specification assumes of every caller, the
  descriptor at each address holds the prim type and the list of its own call, in the
  order given. The example of the specification, \<open>Mesh\<close> with \<open>A, B\<close> and with \<open>B, A\<close>, is
  the witness.
\<close>

theorem order_sensitivity:
  "(list_all well_formed as \<and> list_all well_formed bs \<and> mset as = mset bs \<and> as \<noteq> bs
      \<and> 1 < length as \<and> 1 < length bs \<longrightarrow>
      CreatePrimTypeInfoKey primType as \<noteq> CreatePrimTypeInfoKey primType bs)
   \<and> (list_all well_formed as \<and> list_all well_formed bs \<and> mset as = mset bs \<and> as \<noteq> bs
      \<and> s = run (Usd_PrimTypeInfoCache n) calls
      \<and> FindOrCreatePrimTypeInfo s primType as = (Inr p1, s1)
      \<and> FindOrCreatePrimTypeInfo s1 primType bs = (Inr p2, s2) \<longrightarrow>
      p1 \<noteq> p2)
   \<and> (well_formed primType \<and> list_all well_formed as \<and> list_all well_formed bs
      \<and> list_all well_formed_call calls
      \<and> s = run (Usd_PrimTypeInfoCache n) calls
      \<and> FindOrCreatePrimTypeInfo s primType as = (Inr p1, s1)
      \<and> FindOrCreatePrimTypeInfo s1 primType bs = (Inr p2, s2) \<longrightarrow>
      objects s2 p1 = Some \<lparr>primTypeName = primType, appliedAPISchemas = as\<rparr>
      \<and> objects s2 p2 = Some \<lparr>primTypeName = primType, appliedAPISchemas = bs\<rparr>)"
proof -
  have keys: "CreatePrimTypeInfoKey primType as \<noteq> CreatePrimTypeInfoKey primType bs"
    if "list_all well_formed as" "list_all well_formed bs" "as \<noteq> bs"
    using that CreatePrimTypeInfoKey_inj_schemas [of as bs primType] by blast
  have distinct: "p1 \<noteq> p2"
    if w: "list_all well_formed as" "list_all well_formed bs" "as \<noteq> bs"
      and s: "s = run (Usd_PrimTypeInfoCache n) calls"
      and c1: "FindOrCreatePrimTypeInfo s primType as = (Inr p1, s1)"
      and c2: "FindOrCreatePrimTypeInfo s1 primType bs = (Inr p2, s2)"
  proof -
    from s have inv: "cache_inv s"
      by (simp add: cache_inv_run cache_inv_init)
    from c2 have "FindOrCreatePrimTypeInfo (run s1 []) primType bs = (Inr p2, s2)"
      by simp
    with inv c1 show ?thesis
      using keys [OF w] by (rule FindOrCreate_distinct)
  qed
  have stored: "objects s2 p1 = Some \<lparr>primTypeName = primType, appliedAPISchemas = as\<rparr>
      \<and> objects s2 p2 = Some \<lparr>primTypeName = primType, appliedAPISchemas = bs\<rparr>"
    if w: "well_formed primType" "list_all well_formed as" "list_all well_formed bs"
      and h: "list_all well_formed_call calls"
      and s: "s = run (Usd_PrimTypeInfoCache n) calls"
      and c1: "FindOrCreatePrimTypeInfo s primType as = (Inr p1, s1)"
      and c2: "FindOrCreatePrimTypeInfo s1 primType bs = (Inr p2, s2)"
  proof -
    from s h have inv: "cache_inv s" and wf: "objects_well_formed s"
      by (simp_all add: cache_inv_run cache_inv_init objects_well_formed_run
          objects_well_formed_init)
    from c1 have s1: "s1 = snd (FindOrCreatePrimTypeInfo s primType as)"
      by simp
    from c2 have s2: "s2 = snd (FindOrCreatePrimTypeInfo s1 primType bs)"
      by simp
    from inv s1 have inv1: "cache_inv s1"
      by (simp add: cache_inv_FindOrCreate)
    from inv wf w s1 have wf1: "objects_well_formed s1"
      by (simp add: objects_well_formed_FindOrCreate)
    from FindOrCreate_stored [OF inv wf w(1,2) c1]
    have "objects s1 p1 = Some \<lparr>primTypeName = primType, appliedAPISchemas = as\<rparr>" .
    with inv1 s2 have 1: "objects s2 p1 = Some \<lparr>primTypeName = primType, appliedAPISchemas = as\<rparr>"
      by (simp add: objects_FindOrCreate_mono)
    from FindOrCreate_stored [OF inv1 wf1 w(1,3) c2]
    have 2: "objects s2 p2 = Some \<lparr>primTypeName = primType, appliedAPISchemas = bs\<rparr>" .
    from 1 2 show ?thesis
      by simp
  qed
  from keys distinct stored show ?thesis
    by blast
qed

theorem order_sensitivity_witness:
  "CreatePrimTypeInfoKey ''Mesh'' [''A'', ''B''] \<noteq> CreatePrimTypeInfoKey ''Mesh'' [''B'', ''A'']
   \<and> fst (FindOrCreatePrimTypeInfo (run (Usd_PrimTypeInfoCache 2) []) ''Mesh'' [''A'', ''B''])
       = Inr 2
   \<and> fst (FindOrCreatePrimTypeInfo
             (snd (FindOrCreatePrimTypeInfo (run (Usd_PrimTypeInfoCache 2) []) ''Mesh'' [''A'', ''B'']))
             ''Mesh'' [''B'', ''A''])
       = Inr 3
   \<and> objects (snd (FindOrCreatePrimTypeInfo
             (snd (FindOrCreatePrimTypeInfo (run (Usd_PrimTypeInfoCache 2) []) ''Mesh'' [''A'', ''B'']))
             ''Mesh'' [''B'', ''A''])) 2
       = Some \<lparr>primTypeName = ''Mesh'', appliedAPISchemas = [''A'', ''B'']\<rparr>
   \<and> objects (snd (FindOrCreatePrimTypeInfo
             (snd (FindOrCreatePrimTypeInfo (run (Usd_PrimTypeInfoCache 2) []) ''Mesh'' [''A'', ''B'']))
             ''Mesh'' [''B'', ''A''])) 3
       = Some \<lparr>primTypeName = ''Mesh'', appliedAPISchemas = [''B'', ''A'']\<rparr>"
proof -
  let ?s = "run (Usd_PrimTypeInfoCache 2) []"
  let ?s1 = "snd (FindOrCreatePrimTypeInfo ?s ''Mesh'' [''A'', ''B''])"
  let ?s2 = "snd (FindOrCreatePrimTypeInfo ?s1 ''Mesh'' [''B'', ''A''])"
  have w: "well_formed ''Mesh''" "list_all well_formed [''A'', ''B'']"
    "list_all well_formed [''B'', ''A'']" "list_all well_formed_call []"
    by (simp_all add: well_formed_def)
  have m: "mset [''A'', ''B''] = mset [''B'', ''A'']" "[''A'', ''B''] \<noteq> [''B'', ''A'']"
    "1 < length [''A'', ''B'']" "1 < length [''B'', ''A'']"
    by simp_all
  have r1: "fst (FindOrCreatePrimTypeInfo ?s ''Mesh'' [''A'', ''B'']) = Inr 2"
    by (simp add: cache_defs)
  then have c1: "FindOrCreatePrimTypeInfo ?s ''Mesh'' [''A'', ''B''] = (Inr 2, ?s1)"
    by (simp add: prod_eq_iff)
  have r2: "fst (FindOrCreatePrimTypeInfo ?s1 ''Mesh'' [''B'', ''A'']) = Inr 3"
    by (simp add: cache_defs)
  then have c2: "FindOrCreatePrimTypeInfo ?s1 ''Mesh'' [''B'', ''A''] = (Inr 3, ?s2)"
    by (simp add: prod_eq_iff)
  note t = order_sensitivity [of "[''A'', ''B'']" "[''B'', ''A'']" "''Mesh''" ?s 2 "[]" 2 ?s1 3 ?s2]
  from t w m c1 c2 r1 r2 show ?thesis
    by blast
qed

text \<open>
  The code does not check its identifiers, and the hypothesis on the history cannot be
  dropped from the last part: after a call whose prim type holds a comma, the key
  \<open>Mesh,A,B\<close> is taken, and the call for \<open>Mesh\<close> with \<open>A, B\<close> returns the descriptor of
  that earlier call.
\<close>

lemma comma_in_prim_type_collides:
  "fst (FindOrCreatePrimTypeInfo (run (Usd_PrimTypeInfoCache 2) [(''Mesh,A'', [''B''])])
          ''Mesh'' [''A'', ''B'']) = Inr 2
   \<and> objects (snd (FindOrCreatePrimTypeInfo (run (Usd_PrimTypeInfoCache 2) [(''Mesh,A'', [''B''])])
          ''Mesh'' [''A'', ''B''])) 2
       = Some \<lparr>primTypeName = ''Mesh,A'', appliedAPISchemas = [''B'']\<rparr>"
  by (simp add: cache_defs)

section \<open>The degenerate cases and determinism\<close>

text \<open>
  C8. The keys of the empty prim type with the one applied schema \<open>A\<close> and of the prim type
  \<open>A\<close> with no applied schema are \<open>,A\<close> and \<open>A\<close>; the first is not empty, so the call
  does not take the path of the empty prim type info. On a cache with any history, the
  first call returns a pointer (when a descriptor can be allocated or the entry is there
  already) that is not null, is not the empty prim type info and is the entry under
  \<open>,A\<close>; and the two calls, in either order and with any calls between them, return
  distinct pointers.
\<close>

theorem degenerate_base_type:
  "CreatePrimTypeInfoKey [] [''A''] = '',A'' \<and> CreatePrimTypeInfoKey ''A'' [] = ''A''
   \<and> \<not> IsEmpty (CreatePrimTypeInfoKey [] [''A''])
   \<and> (s = run (Usd_PrimTypeInfoCache n) calls \<and> (0 < avail s \<or> Find s '',A'' \<noteq> nullptr) \<longrightarrow>
        (\<exists>p. fst (FindOrCreatePrimTypeInfo s [] [''A'']) = Inr p \<and> p \<noteq> nullptr
           \<and> p \<noteq> GetEmptyPrimTypeInfo s
           \<and> hashMap (snd (FindOrCreatePrimTypeInfo s [] [''A''])) '',A'' = Some p))
   \<and> (s = run (Usd_PrimTypeInfoCache n) calls
        \<and> FindOrCreatePrimTypeInfo s [] [''A''] = (Inr p1, s1)
        \<and> FindOrCreatePrimTypeInfo (run s1 between) ''A'' [] = (Inr p2, s2) \<longrightarrow> p1 \<noteq> p2)
   \<and> (s = run (Usd_PrimTypeInfoCache n) calls
        \<and> FindOrCreatePrimTypeInfo s ''A'' [] = (Inr p2, s1)
        \<and> FindOrCreatePrimTypeInfo (run s1 between) [] [''A''] = (Inr p1, s2) \<longrightarrow> p1 \<noteq> p2)"
proof -
  have k: "CreatePrimTypeInfoKey [] [''A''] = '',A''" "CreatePrimTypeInfoKey ''A'' [] = ''A''"
    by (simp_all add: CreatePrimTypeInfoKey_concat)
  then have e: "\<not> IsEmpty (CreatePrimTypeInfoKey [] [''A''])"
    by (simp add: IsEmpty_def)
  have succeeds: "\<exists>p. fst (FindOrCreatePrimTypeInfo s [] [''A'']) = Inr p \<and> p \<noteq> nullptr
           \<and> p \<noteq> GetEmptyPrimTypeInfo s
           \<and> hashMap (snd (FindOrCreatePrimTypeInfo s [] [''A''])) '',A'' = Some p"
    if s: "s = run (Usd_PrimTypeInfoCache n) calls"
      and m: "0 < avail s \<or> Find s '',A'' \<noteq> nullptr"
  proof -
    from s have inv: "cache_inv s"
      by (simp add: cache_inv_run cache_inv_init)
    then have inv1: "cache_inv (snd (FindOrCreatePrimTypeInfo s [] [''A'']))"
      by (rule cache_inv_FindOrCreate)
    from inv have g: "GetEmptyPrimTypeInfo s = GetEmptyPrimType_addr"
      by (simp add: GetEmptyPrimTypeInfo_def cache_inv_def)
    from inv have "\<exists>p. FindOrCreatePrimTypeInfo s [] [''A''] 
        = (Inr p, snd (FindOrCreatePrimTypeInfo s [] [''A'']))"
    proof (cases rule: FindOrCreate_cases [where primType = "[]" and appliedSchemas = "[''A'']"])
      case Bad_Alloc
      with m k show ?thesis
        by (simp add: Find_def)
    qed (use k in simp_all)
    then obtain p where c: "FindOrCreatePrimTypeInfo s [] [''A'']
        = (Inr p, snd (FindOrCreatePrimTypeInfo s [] [''A'']))"
      by blast
    from FindOrCreate_registers [OF inv c] k
    have h: "hashMap (snd (FindOrCreatePrimTypeInfo s [] [''A''])) '',A'' = Some p"
      by simp
    from c have "fst (FindOrCreatePrimTypeInfo s [] [''A'']) = Inr p"
      by (simp add: prod_eq_iff)
    with cache_inv_map_value(1,2) [OF inv1 h] g h show ?thesis
      by simp
  qed
  have d1: "p1 \<noteq> p2"
    if "s = run (Usd_PrimTypeInfoCache n) calls"
      "FindOrCreatePrimTypeInfo s [] [''A''] = (Inr p1, s1)"
      "FindOrCreatePrimTypeInfo (run s1 between) ''A'' [] = (Inr p2, s2)"
    using FindOrCreate_distinct [OF _ that(2,3)] that(1) k
    by (simp add: cache_inv_run cache_inv_init)
  have d2: "p1 \<noteq> p2"
    if "s = run (Usd_PrimTypeInfoCache n) calls"
      "FindOrCreatePrimTypeInfo s ''A'' [] = (Inr p2, s1)"
      "FindOrCreatePrimTypeInfo (run s1 between) [] [''A''] = (Inr p1, s2)"
    using FindOrCreate_distinct [OF _ that(2,3)] that(1) k
    by (auto simp: cache_inv_run cache_inv_init)
  from k e succeeds d1 d2 show ?thesis
    by blast
qed

theorem degenerate_base_type_witness:
  "0 < avail (run (Usd_PrimTypeInfoCache 2) [])
   \<and> fst (FindOrCreatePrimTypeInfo (run (Usd_PrimTypeInfoCache 2) []) [] [''A'']) = Inr 2
   \<and> fst (FindOrCreatePrimTypeInfo
        (run (snd (FindOrCreatePrimTypeInfo (run (Usd_PrimTypeInfoCache 2) []) [] [''A''])) [])
        ''A'' []) = Inr 3
   \<and> (2::nat) \<noteq> 3
   \<and> GetEmptyPrimTypeInfo (run (Usd_PrimTypeInfoCache 2) []) \<noteq> 2"
proof -
  let ?s = "run (Usd_PrimTypeInfoCache 2) []"
  let ?s1 = "snd (FindOrCreatePrimTypeInfo ?s [] [''A''])"
  let ?s2 = "snd (FindOrCreatePrimTypeInfo (run ?s1 []) ''A'' [])"
  have a: "0 < avail ?s"
    by (simp add: cache_defs)
  have r1: "fst (FindOrCreatePrimTypeInfo ?s [] [''A'']) = Inr 2"
    by (simp add: cache_defs)
  then have c1: "FindOrCreatePrimTypeInfo ?s [] [''A''] = (Inr 2, ?s1)"
    by (simp add: prod_eq_iff)
  have r2: "fst (FindOrCreatePrimTypeInfo (run ?s1 []) ''A'' []) = Inr 3"
    by (simp add: cache_defs)
  then have c2: "FindOrCreatePrimTypeInfo (run ?s1 []) ''A'' [] = (Inr 3, ?s2)"
    by (simp add: prod_eq_iff)
  note t = degenerate_base_type [of ?s 2 "[]" 2 ?s1 "[]" 3 ?s2]
  from t a c1 c2 have "(2::nat) \<noteq> 3"
    by blast
  moreover from t a r1 have "GetEmptyPrimTypeInfo ?s \<noteq> 2"
    by auto
  ultimately show ?thesis
    using a r1 r2 by blast
qed

text \<open>
  C10. The key is empty exactly when the prim type is empty and there is no applied
  schema; with at least one applied schema, even one whose name is empty, the key holds a
  comma and is not empty. On a cache with any history, a call returns the empty prim type
  info exactly when the prim type is empty and there is no applied schema; with at least
  one applied schema the returned pointer is the entry of the map under the key, is not
  the empty prim type info, and its descriptor is not the empty prim type.
\<close>

theorem empty_path_iff:
  "(IsEmpty (CreatePrimTypeInfoKey primType appliedSchemas)
      \<longleftrightarrow> primType = [] \<and> appliedSchemas = [])
   \<and> (appliedSchemas \<noteq> [] \<longrightarrow>
        CHR '','' \<in> set (CreatePrimTypeInfoKey primType appliedSchemas)
        \<and> \<not> IsEmpty (CreatePrimTypeInfoKey primType appliedSchemas))
   \<and> (s = run (Usd_PrimTypeInfoCache n) calls
        \<and> FindOrCreatePrimTypeInfo s primType appliedSchemas = (Inr p, s1) \<longrightarrow>
        (p = GetEmptyPrimTypeInfo s \<longleftrightarrow> primType = [] \<and> appliedSchemas = [])
        \<and> (appliedSchemas \<noteq> [] \<longrightarrow>
              hashMap s1 (CreatePrimTypeInfoKey primType appliedSchemas) = Some p
              \<and> p \<noteq> GetEmptyPrimTypeInfo s1
              \<and> objects s1 p \<noteq> Some EmptyPrimType))"
proof -
  let ?k = "CreatePrimTypeInfoKey primType appliedSchemas"
  have 1: "IsEmpty ?k \<longleftrightarrow> primType = [] \<and> appliedSchemas = []"
    by (simp add: IsEmpty_def CreatePrimTypeInfoKey_Nil_iff)
  have 2: "CHR '','' \<in> set ?k \<and> \<not> IsEmpty ?k" if "appliedSchemas \<noteq> []"
    using that by (cases appliedSchemas) (simp_all add: IsEmpty_def CreatePrimTypeInfoKey_concat)
  have 3: "(p = GetEmptyPrimTypeInfo s \<longleftrightarrow> primType = [] \<and> appliedSchemas = [])
        \<and> (appliedSchemas \<noteq> [] \<longrightarrow>
              hashMap s1 ?k = Some p \<and> p \<noteq> GetEmptyPrimTypeInfo s1
              \<and> objects s1 p \<noteq> Some EmptyPrimType)"
    if s: "s = run (Usd_PrimTypeInfoCache n) calls"
      and c: "FindOrCreatePrimTypeInfo s primType appliedSchemas = (Inr p, s1)"
  proof -
    from s have inv: "cache_inv s"
      by (simp add: cache_inv_run cache_inv_init)
    from c have "s1 = snd (FindOrCreatePrimTypeInfo s primType appliedSchemas)"
      by simp
    with inv have inv1: "cache_inv s1"
      by (simp add: cache_inv_FindOrCreate)
    from inv inv1 have g: "GetEmptyPrimTypeInfo s = GetEmptyPrimType_addr"
      "GetEmptyPrimTypeInfo s1 = GetEmptyPrimType_addr"
      by (simp_all add: GetEmptyPrimTypeInfo_def cache_inv_def)
    show ?thesis
    proof (cases "?k = []")
      case True
      with c g have "p = GetEmptyPrimTypeInfo s"
        by (auto simp: FindOrCreate_empty GetEmptyPrimTypeInfo_def)
      with True show ?thesis
        by (simp add: CreatePrimTypeInfoKey_Nil_iff)
    next
      case False
      with inv c have h: "hashMap s1 ?k = Some p"
        by (rule FindOrCreate_registers)
      from cache_inv_map_value(5) [OF inv1 h] False key_of_EmptyPrimType
      have "objects s1 p \<noteq> Some EmptyPrimType"
        by auto
      with cache_inv_map_value(2) [OF inv1 h] h g False show ?thesis
        by (simp add: CreatePrimTypeInfoKey_Nil_iff)
    qed
  qed
  from 1 2 3 show ?thesis
    by blast
qed

theorem empty_path_iff_witness:
  "[''''] \<noteq> ([] :: TfTokenVector)
   \<and> CreatePrimTypeInfoKey [] [''''] = '',''
   \<and> \<not> IsEmpty (CreatePrimTypeInfoKey [] [''''])
   \<and> FindOrCreatePrimTypeInfo (run (Usd_PrimTypeInfoCache 1) []) [] ['''']
      = (Inr 2, snd (FindOrCreatePrimTypeInfo (run (Usd_PrimTypeInfoCache 1) []) [] ['''']))
   \<and> GetEmptyPrimTypeInfo (run (Usd_PrimTypeInfoCache 1) []) \<noteq> 2
   \<and> hashMap (snd (FindOrCreatePrimTypeInfo (run (Usd_PrimTypeInfoCache 1) []) [] [''''])) '',''
      = Some 2"
proof -
  let ?s = "run (Usd_PrimTypeInfoCache 1) []"
  let ?s1 = "snd (FindOrCreatePrimTypeInfo ?s [] [''''])"
  have k: "CreatePrimTypeInfoKey [] [''''] = '',''"
    by (simp add: CreatePrimTypeInfoKey_concat)
  have "fst (FindOrCreatePrimTypeInfo ?s [] ['''']) = Inr 2"
    by (simp add: cache_defs)
  then have c: "FindOrCreatePrimTypeInfo ?s [] [''''] = (Inr 2, ?s1)"
    by (simp add: prod_eq_iff)
  note t = empty_path_iff [of "[]" "['''']" ?s 1 "[]" 2 ?s1]
  from t c k show ?thesis
    by auto
qed




end
